theory Spec2Isabelle
  imports Main "HOL-Library.Sublist"
begin

section \<open>Byte strings as Python's \<open>bytes\<close> methods see them\<close>

text \<open>
  \<open>generate_tables.py\<close> works on \<open>bytes\<close>: the captured standard output of the generator.
  A byte string is a \<open>char list\<close> (an Isabelle \<open>char\<close> is one byte); the category names and
  the f-strings of the source are ASCII, so \<open>str.encode()\<close> is the identity on them.
\<close>

type_synonym bytes = string

definition LF :: char where "LF = CHR 0x0A"
definition CR :: char where "CR = CHR 0x0D"
definition DQ :: char where "DQ = CHR 0x22"

text \<open>\<open>sub in s\<close> on bytes: \<open>sub\<close> occurs in \<open>s\<close> as a contiguous run.\<close>

fun is_in :: "bytes \<Rightarrow> bytes \<Rightarrow> bool" where
  "is_in sub [] = (sub = [])"
| "is_in sub (x # xs) = (prefix sub (x # xs) \<or> is_in sub xs)"

text \<open>
  \<open>s.replace(old, new)\<close>: every occurrence of \<open>old\<close>, found left to right and not
  overlapping, is replaced by \<open>new\<close>; an empty \<open>old\<close> matches before every byte and at the end.
\<close>

fun replace_bytes :: "bytes \<Rightarrow> bytes \<Rightarrow> bytes \<Rightarrow> bytes" where
  "replace_bytes old new [] = (if old = [] then new else [])"
| "replace_bytes old new (x # xs) =
     (if old = [] then new @ x # replace_bytes old new xs
      else if prefix old (x # xs) then new @ replace_bytes old new (drop (length old) (x # xs))
      else x # replace_bytes old new xs)"

text \<open>
  \<open>s.splitlines()\<close> on bytes breaks at \<open>\n\<close>, \<open>\r\<close> and \<open>\r\n\<close> (one break), drops the
  breaks, and yields no empty last line after a final break.
\<close>

definition is_break :: "char \<Rightarrow> bool" where
  "is_break c = (c = CR \<or> c = LF)"

fun skip_break :: "bytes \<Rightarrow> bytes" where
  "skip_break [] = []"
| "skip_break (c # r) =
     (if c = CR then (case r of [] \<Rightarrow> [] | d # r' \<Rightarrow> if d = LF then r' else r) else r)"

function splitlines :: "bytes \<Rightarrow> bytes list" where
  "splitlines s =
     (if s = [] then []
      else takeWhile (\<lambda>c. \<not> is_break c) s
           # splitlines (skip_break (dropWhile (\<lambda>c. \<not> is_break c) s)))"
  by pat_completeness auto

termination
proof (relation "measure length")
  show "wf (measure length)" by simp
next
  fix s :: bytes
  assume ne: "s \<noteq> []"
  have "length (skip_break r) \<le> length r - 1" for r
    by (cases r) (auto split: list.splits)
  then have a: "length (skip_break (dropWhile (\<lambda>c. \<not> is_break c) s))
             \<le> length (dropWhile (\<lambda>c. \<not> is_break c) s) - 1" .
  have b: "length (dropWhile (\<lambda>c. \<not> is_break c) s) \<le> length s"
    by (rule length_dropWhile_le)
  from ne have "0 < length s" by simp
  with a b have "length (skip_break (dropWhile (\<lambda>c. \<not> is_break c) s)) < length s"
    by arith
  then show "(skip_break (dropWhile (\<lambda>c. \<not> is_break c) s), s) \<in> measure length"
    by simp
qed

declare splitlines.simps [simp del]

text \<open>\<open>sep.join(lines)\<close>.\<close>

fun join_bytes :: "bytes \<Rightarrow> bytes list \<Rightarrow> bytes" where
  "join_bytes sep [] = []"
| "join_bytes sep [l] = l"
| "join_bytes sep (l # m # ls) = l @ sep @ join_bytes sep (m # ls)"

text \<open>
  \<open>next((i for i, line in enumerate(lines) if P line), None)\<close>: the index of the first line
  that satisfies \<open>P\<close>, or \<open>None\<close>.
\<close>

fun first_index :: "('a \<Rightarrow> bool) \<Rightarrow> 'a list \<Rightarrow> nat option" where
  "first_index P [] = None"
| "first_index P (x # xs) = (if P x then Some 0 else map_option Suc (first_index P xs))"

section \<open>The constants of the script\<close>

text \<open>
  \<open>CATEGORIES\<close> is a Python set literal. The list below holds its elements as the source
  writes them; the set is \<open>set CATEGORIES\<close>, and the order in which a \<open>for\<close> loop enumerates
  it depends on the string hashes of the run, so the loop of \<open>transform_code\<close> takes the
  enumeration order as a parameter.
\<close>

definition CATEGORIES :: "string list" where
  "CATEGORIES =
    [''Close_Punctuation'', ''Connector_Punctuation'', ''Control'', ''Currency_Symbol'',
     ''Dash_Punctuation'', ''Decimal_Number'', ''Enclosing_Mark'', ''Final_Punctuation'',
     ''Format'', ''Initial_Punctuation'', ''Letter_Number'', ''Line_Separator'',
     ''Lowercase_Letter'', ''Math_Symbol'', ''Modifier_Letter'', ''Modifier_Symbol'',
     ''Nonspacing_Mark'', ''Open_Punctuation'', ''Other_Letter'', ''Other_Number'',
     ''Other_Punctuation'', ''Other_Symbol'', ''Paragraph_Separator'', ''Private_Use'',
     ''Space_Separator'', ''Spacing_Mark'', ''Surrogate'', ''Titlecase_Letter'',
     ''Unassigned'', ''Uppercase_Letter'']"

text \<open>An enumeration order of the set: every element once.\<close>

definition enumerates :: "string list \<Rightarrow> bool" where
  "enumerates cats = (distinct cats \<and> set cats = set CATEGORIES)"

text \<open>The two byte strings of the first \<open>replace\<close> call of \<open>transform_code\<close>.\<close>

definition BY_NAME_PAIRS :: bytes where
  "BY_NAME_PAIRS = ''pub const BY_NAME: &'static [(&'static str, &'static [(u32, u32)])]''"

definition BY_NAME_TABLES :: bytes where
  "BY_NAME_TABLES = ''pub const BY_NAME: &'static [&'static [(u32, u32)]]''"

definition USAGE :: string where
  "USAGE = ''Usage: python generate_tables.py <unicode version>''"

text \<open>The value of \<open>--exclude=\<close> in the command line of \<open>ucd_generate\<close>.\<close>

definition EXCLUDE :: string where
  "EXCLUDE = ''Separator,Symbol,Cased_Letter,Letter,Mark,Number,Other,Punctuation''"

section \<open>\<open>transform_code\<close>\<close>

datatype error = TypeError | URLError | CalledProcessError | OSError | ValueError

text \<open>The f-string \<open>("{category}", \<close> of the loop body.\<close>

definition entry_open :: "string \<Rightarrow> bytes" where
  "entry_open category = CHR ''('' # DQ # category @ DQ # '', ''"

text \<open>
  The right-hand side of the assignment in the loop:
  \<open>lines[idx].replace(f"(\"{category}\", ".encode(), b"").replace(b"),", b",")\<close>.
\<close>

definition unwrap_line :: "string \<Rightarrow> bytes \<Rightarrow> bytes" where
  "unwrap_line category line =
     replace_bytes ''),'' '','' (replace_bytes (entry_open category) [] line)"

text \<open>
  The \<open>for\<close> loop over the categories in the order \<open>cats\<close>. \<open>lines[None]\<close> raises
  \<open>TypeError\<close>, which nothing in the script catches.
\<close>

fun transform_lines :: "string list \<Rightarrow> bytes list \<Rightarrow> error + bytes list" where
  "transform_lines [] lines = Inr lines"
| "transform_lines (category # cats) lines =
     (case first_index (is_in category) lines of
        None \<Rightarrow> Inl TypeError
      | Some idx \<Rightarrow> transform_lines cats (lines[idx := unwrap_line category (lines ! idx)]))"

text \<open>The lines the loop starts from: the first \<open>replace\<close>, then \<open>splitlines\<close>.\<close>

definition scanned_lines :: "bytes \<Rightarrow> bytes list" where
  "scanned_lines code = splitlines (replace_bytes BY_NAME_PAIRS BY_NAME_TABLES code)"

definition transform_code_order :: "string list \<Rightarrow> bytes \<Rightarrow> error + bytes" where
  "transform_code_order cats code =
     (case transform_lines cats (scanned_lines code) of
        Inl e \<Rightarrow> Inl e
      | Inr lines \<Rightarrow> Inr (join_bytes [LF] lines))"

text \<open>
  A condition on the lines the loop scans, under which its result does not depend on the
  order of the categories: a line contains at most one of the category names, and unwrapping
  it for that category does not make another category's name appear in it.
\<close>

definition names_isolated :: "string list \<Rightarrow> bytes list \<Rightarrow> bool" where
  "names_isolated cats lines =
     (\<forall>l\<in>set lines. \<forall>c\<in>set cats. \<forall>d\<in>set cats.
        is_in c l \<and> d \<noteq> c \<longrightarrow> \<not> is_in d l \<and> \<not> is_in d (unwrap_line c l))"

section \<open>\<open>ucd_generate\<close>, \<open>get_output_path\<close> and \<open>main\<close>\<close>

text \<open>\<open>s.split(sep)\<close> for a one-byte separator.\<close>

fun split_on :: "char \<Rightarrow> string \<Rightarrow> string list" where
  "split_on c [] = [[]]"
| "split_on c (x # xs) =
     (if x = c then [] # split_on c xs
      else (case split_on c xs of [] \<Rightarrow> [[x]] | p # ps \<Rightarrow> (x # p) # ps))"

text \<open>
  The command line that \<open>ucd_generate\<close> hands to the shell: two adjacent f-strings.
\<close>

definition ucd_generate_command :: "string \<Rightarrow> string" where
  "ucd_generate_command directory =
     (''ucd-generate general-category '' @ directory @ '' '') @ (''--exclude='' @ EXCLUDE)"

text \<open>
  A \<open>pathlib\<close> path on POSIX: the root (\<open>/\<close>, \<open>//\<close> or empty) and the parts; parsing
  drops empty components and \<open>.\<close> components. \<open>a / b\<close> is \<open>b\<close> when \<open>b\<close> is absolute.
\<close>

datatype path = Path (root: string) (parts: "string list")

definition parse_root :: "string \<Rightarrow> string" where
  "parse_root s =
     (if prefix ''///'' s then ''/'' else if prefix ''//'' s then ''//''
      else if prefix ''/'' s then ''/'' else [])"

definition parse_path :: "string \<Rightarrow> path" where
  "parse_path s = Path (parse_root s) (filter (\<lambda>p. p \<noteq> [] \<and> p \<noteq> ''.'') (split_on CHR ''/'' s))"

definition joinpath :: "path \<Rightarrow> path \<Rightarrow> path" where
  "joinpath a b = (if root b \<noteq> [] then b else Path (root a) (parts a @ parts b))"

definition path_str :: "path \<Rightarrow> string" where
  "path_str p = (if root p = [] \<and> parts p = [] then ''.'' else root p @ join_bytes ''/'' (parts p))"

text \<open>
  The tree under the working directory: a relative path (its parts) is a file with its
  content, a directory, or absent. The working directory itself is \<open>[]\<close>.
\<close>

datatype node = File bytes | Dir

type_synonym tree = "string list \<rightharpoonup> node"

definition is_dir :: "tree \<Rightarrow> string list \<Rightarrow> bool" where
  "is_dir t p = (p = [] \<or> t p = Some Dir)"

text \<open>
  \<open>tables_directory.mkdir(parents=True, exist_ok=True)\<close> for \<open>src/tables\<close>: it raises (an
  \<open>OSError\<close>) when \<open>src\<close> or \<open>src/tables\<close> exists and is not a directory, and otherwise
  leaves both as directories.
\<close>

definition mkdir_tables :: "tree \<Rightarrow> error + tree" where
  "mkdir_tables t =
     (case t [''src''] of
        Some (File c) \<Rightarrow> Inl OSError
      | _ \<Rightarrow> (case t [''src'', ''tables''] of
                 Some (File c) \<Rightarrow> Inl OSError
               | _ \<Rightarrow> Inr (t([''src''] \<mapsto> Dir, [''src'', ''tables''] \<mapsto> Dir))))"

definition get_output_path :: "string \<Rightarrow> path" where
  "get_output_path unicode_version =
     joinpath (parse_path ''src/tables'')
       (parse_path (''v'' @ replace_bytes ''.'' ''_'' unicode_version @ ''.rs''))"

text \<open>
  \<open>path.open("wb")\<close>: the file is created, or truncated when it exists, and is empty.
  Opening raises \<open>ValueError\<close> for a NUL byte in the name, and an \<open>OSError\<close> when the path
  is a directory or its parent is not one.
\<close>

definition open_wb :: "path \<Rightarrow> tree \<Rightarrow> error + tree" where
  "open_wb p t =
     (if CHR 0x00 \<in> set (concat (parts p)) then Inl ValueError
      else if parts p = [] \<or> t (parts p) = Some Dir \<or> \<not> is_dir t (butlast (parts p))
      then Inl OSError
      else Inr (t(parts p \<mapsto> File [])))"

text \<open>
  \<open>fd.write(code)\<close> and the close at the end of the \<open>with\<close> block, on the file just opened.
  When nothing fails the file holds \<open>code\<close>. When the write or the flush raises (an
  \<open>OSError\<close>: a full disk, an I/O error), the bytes that reached the file are the first \<open>n\<close>
  bytes of \<open>code\<close>, and the truncated file stays. Whether and where it fails is the
  environment's: \<open>None\<close> for a complete write, \<open>Some n\<close> for a failure after \<open>n\<close> bytes.
\<close>

definition fd_write :: "nat option \<Rightarrow> path \<Rightarrow> bytes \<Rightarrow> tree \<Rightarrow> error option \<times> tree" where
  "fd_write failure p code t =
     (case failure of
        None \<Rightarrow> (None, t(parts p \<mapsto> File code))
      | Some n \<Rightarrow> (Some OSError, t(parts p \<mapsto> File (take n code))))"

text \<open>
  What a run of \<open>main\<close> leaves behind: the tree, the lines printed, and the external
  calls made (the download and the shell command).
\<close>

datatype call = Fetch string string | Shell string

record world =
  tree_of :: tree
  stdout :: "string list"
  calls :: "call list"

text \<open>
  The collaborators \<open>main\<close> depends on: the directory \<open>tempfile.mkdtemp()\<close> returns (it lies
  outside the working directory), whether \<open>fetch\<close> raises, what the generator prints or
  whether \<open>subprocess.run(..., check=True)\<close> raises, the order in which this run
  enumerates the set \<open>CATEGORIES\<close>, and whether writing the given bytes to the output file
  fails and after how many bytes.
\<close>

record env =
  mkdtemp :: string
  fetch :: "string \<Rightarrow> string \<Rightarrow> error option"
  ucd_generate :: "string \<Rightarrow> error + bytes"
  order :: "string list"
  write_failure :: "bytes \<Rightarrow> nat option"

datatype outcome = Returned | Exit nat | Raised error

definition transform_code :: "env \<Rightarrow> bytes \<Rightarrow> error + bytes" where
  "transform_code e code = transform_code_order (order e) code"

definition main :: "env \<Rightarrow> string list \<Rightarrow> world \<Rightarrow> outcome \<times> world" where
  "main e argv w =
     (if length argv \<noteq> 2 then (Exit 1, w\<lparr>stdout := stdout w @ [USAGE]\<rparr>)
      else
        let unicode_version = argv ! 1;
            temp_directory = mkdtemp e;
            w1 = w\<lparr>calls := calls w @ [Fetch unicode_version temp_directory]\<rparr>
        in case fetch e unicode_version temp_directory of
             Some err \<Rightarrow> (Raised err, w1)
           | None \<Rightarrow>
               let w2 = w1\<lparr>calls := calls w1 @ [Shell (ucd_generate_command temp_directory)]\<rparr>
               in case ucd_generate e (ucd_generate_command temp_directory) of
                    Inl err \<Rightarrow> (Raised err, w2)
                  | Inr code \<Rightarrow>
                      (case transform_code e code of
                         Inl err \<Rightarrow> (Raised err, w2)
                       | Inr code' \<Rightarrow>
                           (case mkdir_tables (tree_of w2) of
                              Inl err \<Rightarrow> (Raised err, w2)
                            | Inr t \<Rightarrow>
                                (case open_wb (get_output_path unicode_version) t of
                                   Inl err \<Rightarrow> (Raised err, w2\<lparr>tree_of := t\<rparr>)
                                 | Inr t' \<Rightarrow>
                                     (case fd_write (write_failure e code')
                                             (get_output_path unicode_version) code' t' of
                                        (Some err, t'') \<Rightarrow> (Raised err, w2\<lparr>tree_of := t''\<rparr>)
                                      | (None, t'') \<Rightarrow> (Returned, w2\<lparr>tree_of := t''\<rparr>))))))"

section \<open>Sample inputs\<close>

definition env0 :: env where
  "env0 = \<lparr>mkdtemp = ''/tmp/tmpq3x1'', fetch = (\<lambda>v d. Some URLError),
           ucd_generate = (\<lambda>c. Inl CalledProcessError), order = CATEGORIES,
           write_failure = (\<lambda>c. None)\<rparr>"

definition world0 :: world where
  "world0 = \<lparr>tree_of = Map.empty, stdout = [], calls = []\<rparr>"

text \<open>
  A generator output of the shape \<open>ucd-generate\<close> prints: the declaration of the by-name
  index, one entry per category, and a table. The text ends each line with a line feed, the
  second line with a carriage return and a line feed.
\<close>

definition sample_lines :: "bytes list" where
  \<open>sample_lines =
    [''pub const BY_NAME: &'static [(&'static str, &'static [(u32, u32)])] = &['',
     ''  ("Close_Punctuation", CLOSE_PUNCTUATION),'',
     ''  ("Connector_Punctuation", CONNECTOR_PUNCTUATION),'',
     ''  ("Control", CONTROL),'',
     ''  ("Currency_Symbol", CURRENCY_SYMBOL),'',
     ''  ("Dash_Punctuation", DASH_PUNCTUATION),'',
     ''  ("Decimal_Number", DECIMAL_NUMBER),'',
     ''  ("Enclosing_Mark", ENCLOSING_MARK),'',
     ''  ("Final_Punctuation", FINAL_PUNCTUATION),'',
     ''  ("Format", FORMAT),'',
     ''  ("Initial_Punctuation", INITIAL_PUNCTUATION),'',
     ''  ("Letter_Number", LETTER_NUMBER),'',
     ''  ("Line_Separator", LINE_SEPARATOR),'',
     ''  ("Lowercase_Letter", LOWERCASE_LETTER),'',
     ''  ("Math_Symbol", MATH_SYMBOL),'',
     ''  ("Modifier_Letter", MODIFIER_LETTER),'',
     ''  ("Modifier_Symbol", MODIFIER_SYMBOL),'',
     ''  ("Nonspacing_Mark", NONSPACING_MARK),'',
     ''  ("Open_Punctuation", OPEN_PUNCTUATION),'',
     ''  ("Other_Letter", OTHER_LETTER),'',
     ''  ("Other_Number", OTHER_NUMBER),'',
     ''  ("Other_Punctuation", OTHER_PUNCTUATION),'',
     ''  ("Other_Symbol", OTHER_SYMBOL),'',
     ''  ("Paragraph_Separator", PARAGRAPH_SEPARATOR),'',
     ''  ("Private_Use", PRIVATE_USE),'',
     ''  ("Space_Separator", SPACE_SEPARATOR),'',
     ''  ("Spacing_Mark", SPACING_MARK),'',
     ''  ("Surrogate", SURROGATE),'',
     ''  ("Titlecase_Letter", TITLECASE_LETTER),'',
     ''  ("Unassigned", UNASSIGNED),'',
     ''  ("Uppercase_Letter", UPPERCASE_LETTER),'',
     ''];'',
     '''',
     ''pub const CONTROL: &'static [(u32, u32)] = &['',
     ''  (0, 31), (127, 159),'',
     ''];'']\<close>

definition sample_source :: bytes where
  "sample_source =
     hd sample_lines @ [LF] @ sample_lines ! 1 @ [CR, LF]
     @ concat (map (\<lambda>l. l @ [LF]) (drop 2 sample_lines))"

text \<open>The lines \<open>transform_code\<close> leaves of it.\<close>

definition sample_result_lines :: "bytes list" where
  \<open>sample_result_lines =
    [''pub const BY_NAME: &'static [&'static [(u32, u32)]] = &['',
     ''  CLOSE_PUNCTUATION,'',
     ''  CONNECTOR_PUNCTUATION,'',
     ''  CONTROL,'',
     ''  CURRENCY_SYMBOL,'',
     ''  DASH_PUNCTUATION,'',
     ''  DECIMAL_NUMBER,'',
     ''  ENCLOSING_MARK,'',
     ''  FINAL_PUNCTUATION,'',
     ''  FORMAT,'',
     ''  INITIAL_PUNCTUATION,'',
     ''  LETTER_NUMBER,'',
     ''  LINE_SEPARATOR,'',
     ''  LOWERCASE_LETTER,'',
     ''  MATH_SYMBOL,'',
     ''  MODIFIER_LETTER,'',
     ''  MODIFIER_SYMBOL,'',
     ''  NONSPACING_MARK,'',
     ''  OPEN_PUNCTUATION,'',
     ''  OTHER_LETTER,'',
     ''  OTHER_NUMBER,'',
     ''  OTHER_PUNCTUATION,'',
     ''  OTHER_SYMBOL,'',
     ''  PARAGRAPH_SEPARATOR,'',
     ''  PRIVATE_USE,'',
     ''  SPACE_SEPARATOR,'',
     ''  SPACING_MARK,'',
     ''  SURROGATE,'',
     ''  TITLECASE_LETTER,'',
     ''  UNASSIGNED,'',
     ''  UPPERCASE_LETTER,'',
     ''];'',
     '''',
     ''pub const CONTROL: &'static [(u32, u32)] = &['',
     ''  (0, 31), (127, 159),'',
     ''];'']\<close>

definition sample_result :: bytes where
  "sample_result = join_bytes [LF] sample_result_lines"






text \<open>
  A text whose lines are the thirty names and then \<open>Control\<close> once more: two lines contain
  \<open>Control\<close>.
\<close>

definition dup_lines :: "bytes list" where
  "dup_lines = CATEGORIES @ [''Control'']"

definition dup_source :: bytes where
  "dup_source = join_bytes [LF] dup_lines"

text \<open>
  A text on which the order of the loop shows: its first line holds \<open>Control\<close> in
  parentheses, then a comma, then \<open>Format\<close>; the other twenty-eight names have a line each.
\<close>

definition order_rest :: "bytes list" where
  "order_rest =
    [''Close_Punctuation'', ''Connector_Punctuation'', ''Currency_Symbol'',
     ''Dash_Punctuation'', ''Decimal_Number'', ''Enclosing_Mark'',
     ''Final_Punctuation'', ''Initial_Punctuation'', ''Letter_Number'',
     ''Line_Separator'', ''Lowercase_Letter'', ''Math_Symbol'', ''Modifier_Letter'',
     ''Modifier_Symbol'', ''Nonspacing_Mark'', ''Open_Punctuation'', ''Other_Letter'',
     ''Other_Number'', ''Other_Punctuation'', ''Other_Symbol'',
     ''Paragraph_Separator'', ''Private_Use'', ''Space_Separator'', ''Spacing_Mark'',
     ''Surrogate'', ''Titlecase_Letter'', ''Unassigned'', ''Uppercase_Letter'']"

definition order_source :: bytes where
  \<open>order_source = join_bytes [LF] (''("Control"), Format'' # order_rest)\<close>

definition order_result_fwd :: bytes where
  \<open>order_result_fwd = join_bytes [LF] (''("Control", Format'' # order_rest)\<close>

definition order_result_rev :: bytes where
  \<open>order_result_rev = join_bytes [LF] (''Format'' # order_rest)\<close>

section \<open>Facts about the byte-string operations\<close>

lemma split_on_not_Nil: "split_on c s \<noteq> []"
  by (induction s) (auto split: list.splits)

lemma split_on_Cons:
  "split_on c (x # xs) =
     (if x = c then [] # split_on c xs else (x # hd (split_on c xs)) # tl (split_on c xs))"
  using split_on_not_Nil[of c xs] by (cases "split_on c xs") auto

lemma split_on_absent: "c \<notin> set s \<Longrightarrow> split_on c s = [s]"
  by (induction s) (auto simp: split_on_Cons)

lemma replace_bytes_set:
  "old \<noteq> [] \<Longrightarrow> set (replace_bytes old new s) \<subseteq> set new \<union> set s"
proof (induction old new s rule: replace_bytes.induct)
  case (1 old new) then show ?case by simp
next
  case (2 old new x xs)
  show ?case
  proof (cases "prefix old (x # xs)")
    case True
    let ?d = "drop (length old) (x # xs)"
    have a: "set ?d \<subseteq> set (x # xs)" by (rule set_drop_subset)
    have b: "set (replace_bytes old new ?d) \<subseteq> set new \<union> set ?d"
      using "2.IH"(2)[OF "2.prems" True "2.prems"] .
    from "2.prems" True have c: "replace_bytes old new (x # xs) = new @ replace_bytes old new ?d"
      by simp
    from a b show ?thesis unfolding c by auto
  next
    case False
    have b: "set (replace_bytes old new xs) \<subseteq> set new \<union> set xs"
      using "2.IH"(3)[OF "2.prems" False "2.prems"] .
    from "2.prems" False have c: "replace_bytes old new (x # xs) = x # replace_bytes old new xs"
      by simp
    from b show ?thesis unfolding c by auto
  qed
qed

lemma parse_src_tables:
  "parse_path (''src/tables/'' @ s) = joinpath (parse_path ''src/tables'') (Path [] (parts (parse_path s)))"
  by (simp add: parse_path_def parse_root_def joinpath_def split_on_Cons)

lemma is_in_sublist: "is_in sub s = sublist sub s"
  by (induction s) (simp_all add: sublist_Cons_right)

lemma is_in_hd_notin:
  assumes "c \<noteq> []" "hd c \<notin> set p"
  shows "is_in c (p @ s) = is_in c s"
  using assms
proof (induction p)
  case Nil then show ?case by simp
next
  case (Cons x p)
  then have "\<not> prefix c (x # p @ s)" by (cases c) auto
  with Cons show ?case by simp
qed

lemma is_in_set_mono: "is_in sub s \<Longrightarrow> set sub \<subseteq> set s"
  by (simp add: is_in_sublist set_mono_sublist)

lemma prefix_drop_eq: "prefix old s \<Longrightarrow> s = old @ drop (length old) s"
  by (auto simp: prefix_def)

lemma replace_bytes_absent:
  "old \<noteq> [] \<Longrightarrow> \<not> is_in old s \<Longrightarrow> replace_bytes old new s = s"
  by (induction s) auto

lemma replace_bytes_subseq:
  "old \<noteq> [] \<Longrightarrow> subseq new old \<Longrightarrow> subseq (replace_bytes old new s) s"
proof (induction old new s rule: replace_bytes.induct)
  case (1 old new) then show ?case by simp
next
  case (2 old new x xs)
  show ?case
  proof (cases "prefix old (x # xs)")
    case True
    then have s: "x # xs = old @ drop (length old) (x # xs)" by (rule prefix_drop_eq)
    from 2 True have "subseq (replace_bytes old new (drop (length old) (x # xs)))
                        (drop (length old) (x # xs))" by simp
    with "2.prems"(2) have "subseq (new @ replace_bytes old new (drop (length old) (x # xs)))
                        (old @ drop (length old) (x # xs))"
      by (rule list_emb_append_mono)
    with s have "subseq (new @ replace_bytes old new (drop (length old) (x # xs))) (x # xs)"
      by simp
    with "2.prems"(1) True show ?thesis by simp
  next
    case False
    with 2 show ?thesis by simp
  qed
qed

lemma prefix_append_sep:
  assumes "c \<notin> set old"
  shows "prefix old (l @ c # rest) = prefix old l"
proof
  assume "prefix old (l @ c # rest)"
  then have "prefix old l \<or> (\<exists>us. old = l @ us \<and> prefix us (c # rest))"
    by (simp add: prefix_append)
  then show "prefix old l"
  proof
    assume "prefix old l" then show ?thesis .
  next
    assume "\<exists>us. old = l @ us \<and> prefix us (c # rest)"
    then obtain us where us: "old = l @ us" "prefix us (c # rest)" by blast
    show ?thesis
    proof (cases us)
      case Nil with us show ?thesis by simp
    next
      case (Cons u us')
      with us have "u = c" by simp
      with Cons us assms show ?thesis by simp
    qed
  qed
next
  assume "prefix old l" then show "prefix old (l @ c # rest)" by (rule prefix_prefix)
qed

lemma replace_bytes_append_sep:
  "old \<noteq> [] \<Longrightarrow> c \<notin> set old \<Longrightarrow>
   replace_bytes old new (l @ c # rest) = replace_bytes old new l @ c # replace_bytes old new rest"
proof (induction old new l rule: replace_bytes.induct)
  case (1 old new)
  then have "\<not> prefix old (c # rest)" by (cases old) auto
  with 1 show ?case by simp
next
  case (2 old new x xs)
  have p: "prefix old (x # xs @ c # rest) = prefix old (x # xs)"
    using prefix_append_sep[OF "2.prems"(2), of "x # xs" rest] by simp
  show ?case
  proof (cases "prefix old (x # xs)")
    case True
    then have "length old \<le> length (x # xs)" by (rule prefix_length_le)
    moreover have "drop (length old) ((x # xs) @ c # rest)
        = drop (length old) (x # xs) @ drop (length old - length (x # xs)) (c # rest)"
      by (rule drop_append)
    ultimately have d: "drop (length old) (x # xs @ c # rest) = drop (length old) (x # xs) @ c # rest"
      by simp
    from 2 True have "replace_bytes old new (drop (length old) (x # xs) @ c # rest)
        = replace_bytes old new (drop (length old) (x # xs)) @ c # replace_bytes old new rest"
      by simp
    with True p d "2.prems"(1) show ?thesis by simp
  next
    case False
    with 2 p show ?thesis by simp
  qed
qed

lemma replace_bytes_no_break:
  assumes "old \<noteq> []" "\<forall>c\<in>set new. \<not> is_break c" "\<forall>c\<in>set s. \<not> is_break c"
  shows "\<forall>c\<in>set (replace_bytes old new s). \<not> is_break c"
  using replace_bytes_set[OF assms(1), of new s] assms(2,3) by blast

lemma replace_bytes_eq_Nil:
  "old \<noteq> [] \<Longrightarrow> new \<noteq> [] \<Longrightarrow> (replace_bytes old new s = []) = (s = [])"
  by (cases s) simp_all

lemma replace_bytes_hd:
  "old \<noteq> [] \<Longrightarrow> new \<noteq> [] \<Longrightarrow> s \<noteq> [] \<Longrightarrow>
   hd (replace_bytes old new s) = hd new \<or> hd (replace_bytes old new s) = hd s"
  by (cases s) simp_all

lemma splitlines_Nil: "splitlines [] = []"
  by (subst splitlines.simps) simp

lemma splitlines_no_break:
  assumes "s \<noteq> []" "\<forall>c\<in>set s. \<not> is_break c"
  shows "splitlines s = [s]"
proof -
  from assms(2) have t: "takeWhile (\<lambda>c. \<not> is_break c) s = s" by simp
  from assms(2) have d: "dropWhile (\<lambda>c. \<not> is_break c) s = []" by simp
  show ?thesis
    by (subst splitlines.simps) (simp only: t d assms(1) if_False skip_break.simps splitlines_Nil)
qed

lemma splitlines_break:
  assumes "\<forall>c\<in>set l. \<not> is_break c" "is_break b"
  shows "splitlines (l @ b # rest) = l # splitlines (skip_break (b # rest))"
proof -
  from assms have "takeWhile (\<lambda>c. \<not> is_break c) (l @ b # rest) = l"
    by (simp add: takeWhile_append2)
  moreover from assms have "dropWhile (\<lambda>c. \<not> is_break c) (l @ b # rest) = b # rest"
    by (simp add: dropWhile_append2)
  ultimately show ?thesis by (subst splitlines.simps) simp
qed

lemma split_at_break:
  "(\<forall>c\<in>set s. \<not> is_break c) \<or>
   (\<exists>l b rest. s = l @ b # rest \<and> (\<forall>c\<in>set l. \<not> is_break c) \<and> is_break b)"
proof (cases "\<forall>c\<in>set s. \<not> is_break c")
  case True then show ?thesis by simp
next
  case False
  then have "\<exists>c\<in>set s. is_break c" by simp
  then have "\<exists>l b rest. s = l @ b # rest \<and> is_break b \<and> (\<forall>c\<in>set l. \<not> is_break c)"
    by (rule split_list_first_prop)
  then show ?thesis by blast
qed

lemma skip_break_replace:
  assumes o: "old \<noteq> []" "\<forall>c\<in>set old. \<not> is_break c"
      and n: "new \<noteq> []" "\<forall>c\<in>set new. \<not> is_break c"
      and b: "is_break b"
  shows "skip_break (b # replace_bytes old new rest) = replace_bytes old new (skip_break (b # rest))"
proof (cases rest)
  case Nil
  with o show ?thesis by simp
next
  case (Cons d r)
  show ?thesis
  proof (cases "d = LF")
    case True
    with o have "\<not> prefix old (d # r)" by (cases old) (auto simp: is_break_def)
    with o Cons True show ?thesis by simp
  next
    case False
    have "hd (replace_bytes old new rest) = hd new \<or> hd (replace_bytes old new rest) = hd rest"
      using o(1) n(1) Cons by (intro replace_bytes_hd) simp_all
    moreover from n have "hd new \<noteq> LF" by (cases new) (auto simp: is_break_def)
    ultimately have h: "hd (replace_bytes old new rest) \<noteq> LF" using False Cons by auto
    from o(1) n(1) Cons have "replace_bytes old new rest \<noteq> []"
      by (simp add: replace_bytes_eq_Nil)
    then obtain d' r' where r: "replace_bytes old new rest = d' # r'"
      by (cases "replace_bytes old new rest") auto
    with h have "d' \<noteq> LF" by simp
    with r Cons False show ?thesis by simp
  qed
qed

lemma splitlines_no_breaks:
  "\<forall>l\<in>set (splitlines s). \<forall>c\<in>set l. \<not> is_break c"
proof (induction s rule: splitlines.induct)
  case (1 s)
  show ?case
  proof (cases "s = []")
    case True then show ?thesis by (simp add: splitlines_Nil)
  next
    case False
    let ?l = "takeWhile (\<lambda>c. \<not> is_break c) s"
    let ?r = "skip_break (dropWhile (\<lambda>c. \<not> is_break c) s)"
    have a: "\<forall>c\<in>set ?l. \<not> is_break c"
      by (blast dest: set_takeWhileD)
    from 1 False have b: "\<forall>l\<in>set (splitlines ?r). \<forall>c\<in>set l. \<not> is_break c" by blast
    have eq: "splitlines s = ?l # splitlines ?r"
      using False splitlines.simps[of s] by (simp only: if_False)
    show ?thesis
    proof (intro ballI)
      fix l c
      assume "l \<in> set (splitlines s)" and c: "c \<in> set l"
      with eq have "l = ?l \<or> l \<in> set (splitlines ?r)" by simp
      with a b c show "\<not> is_break c" by blast
    qed
  qed
qed

lemma splitlines_replace_bytes:
  assumes o: "old \<noteq> []" "\<forall>c\<in>set old. \<not> is_break c"
      and n: "new \<noteq> []" "\<forall>c\<in>set new. \<not> is_break c"
  shows "splitlines (replace_bytes old new s) = map (replace_bytes old new) (splitlines s)"
proof (induction s rule: length_induct)
  case (1 s)
  show ?case
  proof (cases "s = []")
    case True
    with o show ?thesis by (simp add: splitlines_Nil)
  next
    case ne: False
    from split_at_break[of s] show ?thesis
    proof
      assume nb: "\<forall>c\<in>set s. \<not> is_break c"
      then have "\<forall>c\<in>set (replace_bytes old new s). \<not> is_break c"
        using o(1) n(2) by (intro replace_bytes_no_break)
      moreover from ne o(1) n(1) have "replace_bytes old new s \<noteq> []"
        by (simp add: replace_bytes_eq_Nil)
      ultimately have "splitlines (replace_bytes old new s) = [replace_bytes old new s]"
        by (intro splitlines_no_break)
      with ne nb show ?thesis by (simp add: splitlines_no_break)
    next
      assume "\<exists>l b rest. s = l @ b # rest \<and> (\<forall>c\<in>set l. \<not> is_break c) \<and> is_break b"
      then obtain l b rest where s: "s = l @ b # rest" and l: "\<forall>c\<in>set l. \<not> is_break c"
        and b: "is_break b" by blast
      from b o(2) have bo: "b \<notin> set old" by blast
      have r: "replace_bytes old new s
                 = replace_bytes old new l @ b # replace_bytes old new rest"
        unfolding s using o(1) bo by (rule replace_bytes_append_sep)
      have l': "\<forall>c\<in>set (replace_bytes old new l). \<not> is_break c"
        using o(1) n(2) l by (intro replace_bytes_no_break)
      have "length (skip_break (b # rest)) < length s"
        unfolding s by (auto split: list.splits)
      with 1 have ih: "splitlines (replace_bytes old new (skip_break (b # rest)))
            = map (replace_bytes old new) (splitlines (skip_break (b # rest)))" by blast
      have "splitlines (replace_bytes old new s)
              = replace_bytes old new l # splitlines (skip_break (b # replace_bytes old new rest))"
        unfolding r using l' b by (rule splitlines_break)
      also have "skip_break (b # replace_bytes old new rest)
              = replace_bytes old new (skip_break (b # rest))"
        using o n b by (rule skip_break_replace)
      finally show ?thesis unfolding s using ih l b by (simp add: splitlines_break)
    qed
  qed
qed

lemma first_index_Some:
  "first_index P xs = Some i \<Longrightarrow> i < length xs \<and> P (xs ! i) \<and> (\<forall>j<i. \<not> P (xs ! j))"
proof (induction xs arbitrary: i)
  case Nil then show ?case by simp
next
  case (Cons x xs)
  show ?case
  proof (cases "P x")
    case True with Cons.prems show ?thesis by simp
  next
    case False
    with Cons.prems obtain i' where i': "first_index P xs = Some i'" "i = Suc i'" by auto
    from Cons.IH[OF i'(1)] False i'(2) show ?thesis by (auto simp: less_Suc_eq_0_disj)
  qed
qed

lemma first_index_None: "(first_index P xs = None) = (\<forall>x\<in>set xs. \<not> P x)"
  by (induction xs) auto

lemma first_index_cong:
  "map P xs = map Q ys \<Longrightarrow> first_index P xs = first_index Q ys"
proof (induction xs arbitrary: ys)
  case Nil then show ?case by simp
next
  case (Cons x xs)
  then obtain y ys' where "ys = y # ys'" by (cases ys) auto
  with Cons show ?case by auto
qed

lemma unwrap_line_subseq: "subseq (unwrap_line c l) l"
proof -
  have a: "subseq (replace_bytes (entry_open c) [] l) l"
    by (rule replace_bytes_subseq) (simp_all add: entry_open_def)
  have "subseq (replace_bytes ''),'' '','' (replace_bytes (entry_open c) [] l))
          (replace_bytes (entry_open c) [] l)"
    by (rule replace_bytes_subseq) simp_all
  with a show ?thesis unfolding unwrap_line_def by (rule subseq_order.trans[rotated])
qed

lemma transform_lines_length:
  "transform_lines cs L = Inr L' \<Longrightarrow> length L' = length L"
proof (induction cs arbitrary: L)
  case Nil then show ?case by simp
next
  case (Cons c cs)
  then obtain i where i: "first_index (is_in c) L = Some i"
    by (cases "first_index (is_in c) L") auto
  with Cons.prems have "transform_lines cs (L[i := unwrap_line c (L ! i)]) = Inr L'" by simp
  from Cons.IH[OF this] show ?case by simp
qed

lemma transform_lines_frame:
  "transform_lines cs L = Inr L' \<Longrightarrow> k < length L \<Longrightarrow> \<forall>c\<in>set cs. \<not> is_in c (L ! k)
   \<Longrightarrow> L' ! k = L ! k"
proof (induction cs arbitrary: L)
  case Nil then show ?case by simp
next
  case (Cons c cs)
  then obtain i where i: "first_index (is_in c) L = Some i"
    by (cases "first_index (is_in c) L") auto
  from first_index_Some[OF i] have "is_in c (L ! i)" by simp
  with Cons.prems(3) have ik: "i \<noteq> k" by auto
  let ?L = "L[i := unwrap_line c (L ! i)]"
  from i Cons.prems have t: "transform_lines cs ?L = Inr L'" by simp
  from ik have e: "?L ! k = L ! k" by simp
  from Cons.prems(2) have kl: "k < length ?L" by simp
  from Cons.prems(3) e have "\<forall>d\<in>set cs. \<not> is_in d (?L ! k)" by simp
  from Cons.IH[OF t kl this] e show ?case by simp
qed

lemma transform_lines_subseq:
  "transform_lines cs L = Inr L' \<Longrightarrow> k < length L \<Longrightarrow> subseq (L' ! k) (L ! k)"
proof (induction cs arbitrary: L)
  case Nil then show ?case by simp
next
  case (Cons c cs)
  then obtain i where i: "first_index (is_in c) L = Some i"
    by (cases "first_index (is_in c) L") auto
  let ?L = "L[i := unwrap_line c (L ! i)]"
  from i Cons.prems have t: "transform_lines cs ?L = Inr L'" by simp
  from Cons.prems(2) have kl: "k < length ?L" by simp
  have s: "subseq (?L ! k) (L ! k)"
  proof (cases "i = k")
    case True with Cons.prems(2) show ?thesis by (simp add: unwrap_line_subseq)
  next
    case False then show ?thesis by simp
  qed
  from Cons.IH[OF t kl] s show ?case by (rule subseq_order.trans)
qed

lemma subseq_set: "subseq xs ys \<Longrightarrow> set xs \<subseteq> set ys"
  by (induction rule: list_emb.induct) auto

lemma set_join_bytes: "set (join_bytes sep ls) \<subseteq> set sep \<union> \<Union> (set ` set ls)"
  by (induction sep ls rule: join_bytes.induct) auto

lemma count_join_bytes:
  "\<forall>l\<in>set ls. x \<notin> set l \<Longrightarrow> length (filter (\<lambda>c. c = x) (join_bytes [x] ls)) = length ls - 1"
  by (induction "[x]" ls rule: join_bytes.induct) (auto simp: filter_empty_conv)

lemma scanned_lines_map:
  "scanned_lines code = map (replace_bytes BY_NAME_PAIRS BY_NAME_TABLES) (splitlines code)"
  unfolding scanned_lines_def
  by (rule splitlines_replace_bytes)
     (simp_all add: BY_NAME_PAIRS_def BY_NAME_TABLES_def is_break_def CR_def LF_def)

lemma subseq_BY_NAME: "subseq BY_NAME_TABLES BY_NAME_PAIRS"
  by (simp add: BY_NAME_PAIRS_def BY_NAME_TABLES_def)

section \<open>Evaluated runs of the transform\<close>

lemma sample_eval: "transform_code_order CATEGORIES sample_source = Inr sample_result"
  by code_simp



lemma transform_code_order_lines:
  assumes "transform_code_order cats code = Inr out"
  obtains L' where "transform_lines cats (scanned_lines code) = Inr L'" "out = join_bytes [LF] L'"
  using assms unfolding transform_code_order_def
  by (cases "transform_lines cats (scanned_lines code)") auto

lemma scanned_lines_nth:
  "k < length (splitlines code) \<Longrightarrow>
   scanned_lines code ! k = replace_bytes BY_NAME_PAIRS BY_NAME_TABLES (splitlines code ! k)"
  by (simp add: scanned_lines_map)

lemma scanned_lines_subseq:
  "k < length (splitlines code) \<Longrightarrow> subseq (scanned_lines code ! k) (splitlines code ! k)"
  unfolding scanned_lines_nth
  by (rule replace_bytes_subseq) (simp_all add: subseq_BY_NAME, simp add: BY_NAME_PAIRS_def)

lemma transformed_lines_subseq:
  assumes "transform_lines cats (scanned_lines code) = Inr L'" "k < length (splitlines code)"
  shows "subseq (L' ! k) (splitlines code ! k)"
proof -
  from assms(2) have "k < length (scanned_lines code)" by (simp add: scanned_lines_map)
  with assms(1) have "subseq (L' ! k) (scanned_lines code ! k)" by (rule transform_lines_subseq)
  moreover from assms(2) have "subseq (scanned_lines code ! k) (splitlines code ! k)"
    by (rule scanned_lines_subseq)
  ultimately show ?thesis by (rule subseq_order.trans)
qed

lemma transformed_lines_length:
  "transform_lines cats (scanned_lines code) = Inr L' \<Longrightarrow> length L' = length (splitlines code)"
  by (drule transform_lines_length) (simp add: scanned_lines_map)

lemma transformed_lines_break_free:
  assumes "transform_lines cats (scanned_lines code) = Inr L'" "l \<in> set L'"
  shows "CR \<notin> set l \<and> LF \<notin> set l"
proof -
  from assms(2) obtain k where k: "k < length L'" "l = L' ! k" by (auto simp: in_set_conv_nth)
  with assms(1) have kl: "k < length (splitlines code)" by (simp add: transformed_lines_length)
  with assms(1) have "subseq l (splitlines code ! k)" unfolding k(2) by (rule transformed_lines_subseq)
  then have "set l \<subseteq> set (splitlines code ! k)" by (rule subseq_set)
  moreover from kl have "splitlines code ! k \<in> set (splitlines code)" by simp
  then have "\<forall>c\<in>set (splitlines code ! k). \<not> is_break c" using splitlines_no_breaks by blast
  ultimately have "\<forall>c\<in>set l. \<not> is_break c" by blast
  then show ?thesis unfolding is_break_def by blast
qed

lemma sample_source_lines: "splitlines sample_source = sample_lines"
  by code_simp

lemma names_isolated_D:
  "names_isolated cats L \<Longrightarrow> l \<in> set L \<Longrightarrow> c \<in> set cats \<Longrightarrow> d \<in> set cats \<Longrightarrow> is_in c l
   \<Longrightarrow> d \<noteq> c \<Longrightarrow> \<not> is_in d l \<and> \<not> is_in d (unwrap_line c l)"
  unfolding names_isolated_def by blast

text \<open>One pass of the loop body, for a category found at index \<open>i\<close>.\<close>

lemma step_first_index:
  assumes iso: "names_isolated (c # cs) L" and d: "distinct (c # cs)"
      and i: "first_index (is_in c) L = Some i" and e: "e \<in> set cs"
  shows "first_index (is_in e) (L[i := unwrap_line c (L ! i)]) = first_index (is_in e) L"
proof (rule first_index_cong)
  from first_index_Some[OF i] have il: "i < length L" and ci: "is_in c (L ! i)" by simp_all
  from d e have ne: "e \<noteq> c" by auto
  from il have "L ! i \<in> set L" by simp
  from names_isolated_D[OF iso this _ _ ci ne] e
  have "\<not> is_in e (L ! i)" "\<not> is_in e (unwrap_line c (L ! i))" by simp_all
  then have "is_in e (unwrap_line c (L ! i)) = map (is_in e) L ! i" using il by simp
  then have "(map (is_in e) L)[i := is_in e (unwrap_line c (L ! i))] = map (is_in e) L"
    by (simp only: list_update_id)
  then show "map (is_in e) (L[i := unwrap_line c (L ! i)]) = map (is_in e) L"
    by (simp add: map_update)
qed

lemma step_isolated:
  assumes iso: "names_isolated (c # cs) L" and d: "distinct (c # cs)"
      and i: "first_index (is_in c) L = Some i"
  shows "names_isolated cs (L[i := unwrap_line c (L ! i)])"
  unfolding names_isolated_def
proof (intro ballI impI)
  fix l a b
  assume l: "l \<in> set (L[i := unwrap_line c (L ! i)])" and a: "a \<in> set cs" and b: "b \<in> set cs"
    and h: "is_in a l \<and> b \<noteq> a"
  from first_index_Some[OF i] have il: "i < length L" and ci: "is_in c (L ! i)" by simp_all
  from il have Li: "L ! i \<in> set L" by simp
  from l have "l = unwrap_line c (L ! i) \<or> l \<in> set L"
    using set_update_subset_insert[of L i "unwrap_line c (L ! i)"] by blast
  then show "\<not> is_in b l \<and> \<not> is_in b (unwrap_line a l)"
  proof
    assume u: "l = unwrap_line c (L ! i)"
    from d a have "a \<noteq> c" by auto
    from names_isolated_D[OF iso Li _ _ ci this] a have "\<not> is_in a l" unfolding u by simp
    with h show ?thesis by simp
  next
    assume "l \<in> set L"
    from names_isolated_D[OF iso this, of a b] a b h show ?thesis by simp
  qed
qed

lemma isolated_missing:
  "names_isolated cs L \<Longrightarrow> distinct cs \<Longrightarrow> c \<in> set cs \<Longrightarrow> \<forall>l\<in>set L. \<not> is_in c l
   \<Longrightarrow> transform_lines cs L = Inl TypeError"
proof (induction cs arbitrary: L)
  case Nil then show ?case by simp
next
  case (Cons c0 cs)
  show ?case
  proof (cases "first_index (is_in c0) L")
    case None then show ?thesis by simp
  next
    case (Some i)
    let ?L = "L[i := unwrap_line c0 (L ! i)]"
    from first_index_Some[OF Some] have il: "i < length L" and ci: "is_in c0 (L ! i)" by simp_all
    from il have Li: "L ! i \<in> set L" by simp
    from ci Li Cons.prems(4) have ne: "c \<noteq> c0" by blast
    with Cons.prems(3) have cs: "c \<in> set cs" by simp
    from names_isolated_D[OF Cons.prems(1) Li _ _ ci ne] Cons.prems(3)
    have nu: "\<not> is_in c (unwrap_line c0 (L ! i))" by simp
    have "\<forall>l\<in>set ?L. \<not> is_in c l"
    proof
      fix l assume "l \<in> set ?L"
      then have "l = unwrap_line c0 (L ! i) \<or> l \<in> set L"
        using set_update_subset_insert[of L i "unwrap_line c0 (L ! i)"] by blast
      with nu Cons.prems(4) show "\<not> is_in c l" by blast
    qed
    moreover have "names_isolated cs ?L" using Cons.prems(1,2) Some by (rule step_isolated)
    moreover from Cons.prems(2) have "distinct cs" by simp
    ultimately have "transform_lines cs ?L = Inl TypeError" using cs Cons.IH by blast
    with Some show ?thesis by simp
  qed
qed

lemma isolated_present:
  "names_isolated cs L \<Longrightarrow> distinct cs \<Longrightarrow> \<forall>c\<in>set cs. \<exists>l\<in>set L. is_in c l
   \<Longrightarrow> \<exists>L'. transform_lines cs L = Inr L'"
proof (induction cs arbitrary: L)
  case Nil then show ?case by simp
next
  case (Cons c0 cs)
  from Cons.prems(3) have "\<not> (\<forall>x\<in>set L. \<not> is_in c0 x)" by simp
  then obtain i where i: "first_index (is_in c0) L = Some i"
    using first_index_None[of "is_in c0" L] by (cases "first_index (is_in c0) L") auto
  let ?L = "L[i := unwrap_line c0 (L ! i)]"
  have "\<forall>c\<in>set cs. \<exists>l\<in>set ?L. is_in c l"
  proof
    fix c assume c: "c \<in> set cs"
    then have "first_index (is_in c) ?L = first_index (is_in c) L"
      using step_first_index[OF Cons.prems(1,2) i] by simp
    moreover from c Cons.prems(3) have "first_index (is_in c) L \<noteq> None"
      by (simp add: first_index_None)
    ultimately have "first_index (is_in c) ?L \<noteq> None" by simp
    then show "\<exists>l\<in>set ?L. is_in c l" by (simp add: first_index_None)
  qed
  moreover have "names_isolated cs ?L" using Cons.prems(1,2) i by (rule step_isolated)
  moreover from Cons.prems(2) have "distinct cs" by simp
  ultimately have "\<exists>L'. transform_lines cs ?L = Inr L'" using Cons.IH by blast
  with i show ?case by simp
qed

lemma isolated_result:
  "names_isolated cs L \<Longrightarrow> distinct cs \<Longrightarrow> transform_lines cs L = Inr L' \<Longrightarrow> k < length L \<Longrightarrow>
   (\<forall>c\<in>set cs. first_index (is_in c) L = Some k \<longrightarrow> L' ! k = unwrap_line c (L ! k))
   \<and> ((\<forall>c\<in>set cs. first_index (is_in c) L \<noteq> Some k) \<longrightarrow> L' ! k = L ! k)"
proof (induction cs arbitrary: L)
  case Nil then show ?case by simp
next
  case (Cons c0 cs)
  from Cons.prems(3) obtain i where i: "first_index (is_in c0) L = Some i"
    by (cases "first_index (is_in c0) L") auto
  let ?L = "L[i := unwrap_line c0 (L ! i)]"
  from first_index_Some[OF i] have il: "i < length L" and ci: "is_in c0 (L ! i)" by simp_all
  from il have Li: "L ! i \<in> set L" by simp
  from i Cons.prems(3) have t: "transform_lines cs ?L = Inr L'" by simp
  have iso: "names_isolated cs ?L" using Cons.prems(1,2) i by (rule step_isolated)
  from Cons.prems(2) have dc: "distinct cs" by simp
  from Cons.prems(4) have kl: "k < length ?L" by simp
  note IH = Cons.IH[OF iso dc t kl]
  have fi: "first_index (is_in e) ?L = first_index (is_in e) L" if "e \<in> set cs" for e
    using step_first_index[OF Cons.prems(1,2) i that] .
  have other: "first_index (is_in e) L \<noteq> Some i" if e: "e \<in> set cs" for e
  proof
    assume "first_index (is_in e) L = Some i"
    from first_index_Some[OF this] have "is_in e (L ! i)" by simp
    moreover from e Cons.prems(2) have "e \<noteq> c0" by auto
    ultimately show False using names_isolated_D[OF Cons.prems(1) Li _ _ ci, of e] e by simp
  qed
  show ?case
  proof (intro conjI ballI impI)
    fix c assume c: "c \<in> set (c0 # cs)" and f: "first_index (is_in c) L = Some k"
    show "L' ! k = unwrap_line c (L ! k)"
    proof (cases "c = c0")
      case True
      with f i have ki: "k = i" by simp
      have "\<forall>e\<in>set cs. first_index (is_in e) ?L \<noteq> Some k"
        using fi other ki by simp
      with IH have "L' ! k = ?L ! k" by blast
      with ki il True show ?thesis by simp
    next
      case False
      with c have cs: "c \<in> set cs" by simp
      with f have "first_index (is_in c) ?L = Some k" by (simp add: fi)
      with IH cs have "L' ! k = unwrap_line c (?L ! k)" by blast
      moreover from other[OF cs] f have "k \<noteq> i" by auto
      ultimately show ?thesis by simp
    qed
  next
    assume n: "\<forall>c\<in>set (c0 # cs). first_index (is_in c) L \<noteq> Some k"
    with i have ki: "k \<noteq> i" by auto
    from n have "\<forall>e\<in>set cs. first_index (is_in e) ?L \<noteq> Some k" by (simp add: fi)
    with IH have "L' ! k = ?L ! k" by blast
    with ki show "L' ! k = L ! k" by simp
  qed
qed

lemma isolated_order_independent:
  assumes iso: "names_isolated cs L" and d: "distinct cs" "distinct cs'" and s: "set cs' = set cs"
  shows "transform_lines cs' L = transform_lines cs L"
proof (cases "\<forall>c\<in>set cs. \<exists>l\<in>set L. is_in c l")
  case True
  from iso have iso': "names_isolated cs' L" by (simp only: names_isolated_def s)
  from isolated_present[OF iso d(1) True] obtain A where A: "transform_lines cs L = Inr A" by blast
  from True s have "\<forall>c\<in>set cs'. \<exists>l\<in>set L. is_in c l" by simp
  from isolated_present[OF iso' d(2) this] obtain B where B: "transform_lines cs' L = Inr B" by blast
  have "B = A"
  proof (rule nth_equalityI)
    show "length B = length A"
      using transform_lines_length[OF A] transform_lines_length[OF B] by simp
  next
    fix k assume "k < length B"
    with transform_lines_length[OF B] have kl: "k < length L" by simp
    note RA = isolated_result[OF iso d(1) A kl]
    note RB = isolated_result[OF iso' d(2) B kl]
    show "B ! k = A ! k"
    proof (cases "\<exists>c\<in>set cs. first_index (is_in c) L = Some k")
      case True
      then obtain c where c: "c \<in> set cs" "first_index (is_in c) L = Some k" by blast
      with RA have "A ! k = unwrap_line c (L ! k)" by blast
      moreover from c s RB have "B ! k = unwrap_line c (L ! k)" by blast
      ultimately show ?thesis by simp
    next
      case False
      with RA have "A ! k = L ! k" by blast
      moreover from False s RB have "B ! k = L ! k" by blast
      ultimately show ?thesis by simp
    qed
  qed
  with A B show ?thesis by simp
next
  case False
  then obtain c where c: "c \<in> set cs" "\<forall>l\<in>set L. \<not> is_in c l" by blast
  from iso have iso': "names_isolated cs' L" by (simp only: names_isolated_def s)
  from isolated_missing[OF iso d(1) c] have "transform_lines cs L = Inl TypeError" .
  moreover from c s isolated_missing[OF iso' d(2)] have "transform_lines cs' L = Inl TypeError"
    by blast
  ultimately show ?thesis by simp
qed

section \<open>Properties of the script\<close>

text \<open>
  Claim C6. For every version string, \<open>get_output_path\<close> returns the path that the string
  \<open>"src/tables/v" + version.replace(".", "_") + ".rs"\<close> denotes, relative to the working
  directory. When the version has no \<open>/\<close>, the path prints as exactly that string; versions
  \<open>15.0.0\<close> and \<open>14.0.0\<close> give \<open>src/tables/v15_0_0.rs\<close> and \<open>src/tables/v14_0_0.rs\<close>.
\<close>

theorem get_output_path_mapping:
  "get_output_path v = parse_path (''src/tables/v'' @ replace_bytes ''.'' ''_'' v @ ''.rs'')
   \<and> (CHR ''/'' \<notin> set v \<longrightarrow>
        path_str (get_output_path v) = ''src/tables/v'' @ replace_bytes ''.'' ''_'' v @ ''.rs'')
   \<and> path_str (get_output_path ''15.0.0'') = ''src/tables/v15_0_0.rs''
   \<and> path_str (get_output_path ''14.0.0'') = ''src/tables/v14_0_0.rs''"
proof (intro conjI impI)
  let ?n = "''v'' @ replace_bytes ''.'' ''_'' v @ ''.rs''"
  have r: "parse_root ?n = []" by (simp add: parse_root_def)
  have "parse_path (''src/tables/'' @ ?n)
          = joinpath (parse_path ''src/tables'') (Path [] (parts (parse_path ?n)))"
    by (rule parse_src_tables)
  moreover have "Path [] (parts (parse_path ?n)) = parse_path ?n"
    using r by (simp add: parse_path_def)
  ultimately show g: "get_output_path v = parse_path (''src/tables/v'' @ replace_bytes ''.'' ''_'' v @ ''.rs'')"
    by (simp add: get_output_path_def)
  show "path_str (get_output_path v) = ''src/tables/v'' @ replace_bytes ''.'' ''_'' v @ ''.rs''"
    if "CHR ''/'' \<notin> set v"
  proof -
    have "set (replace_bytes ''.'' ''_'' v) \<subseteq> set ''_'' \<union> set v"
      by (rule replace_bytes_set) simp
    with that have "CHR ''/'' \<notin> set ?n" by auto
    then have "split_on CHR ''/'' ?n = [?n]" by (rule split_on_absent)
    then have "parse_path ?n = Path [] [?n]" using r by (simp add: parse_path_def)
    then show ?thesis
      by (simp add: get_output_path_def joinpath_def path_str_def parse_path_def parse_root_def
            split_on_Cons)
  qed
  show "path_str (get_output_path ''15.0.0'') = ''src/tables/v15_0_0.rs''"
    by (simp add: get_output_path_def joinpath_def path_str_def parse_path_def parse_root_def
          split_on_Cons)
  show "path_str (get_output_path ''14.0.0'') = ''src/tables/v14_0_0.rs''"
    by (simp add: get_output_path_def joinpath_def path_str_def parse_path_def parse_root_def
          split_on_Cons)
qed

theorem get_output_path_mapping_witness:
  "CHR ''/'' \<notin> set ''9.9.9'' \<and> path_str (get_output_path ''9.9.9'') = ''src/tables/v9_9_9.rs''"
  using get_output_path_mapping [of "''9.9.9''", THEN conjunct2, THEN conjunct1] by simp

text \<open>
  Claim C9. The set \<open>CATEGORIES\<close> has exactly 30 distinct names, none of them one of the eight
  aggregate names, and the command line of \<open>ucd_generate\<close> passes exactly those eight names,
  separated by commas, as its \<open>--exclude\<close> list.
\<close>

theorem categories_thirty_no_aggregate:
  "distinct CATEGORIES \<and> card (set CATEGORIES) = 30
   \<and> set CATEGORIES \<inter> {''Letter'', ''Mark'', ''Number'', ''Punctuation'', ''Symbol'',
                           ''Separator'', ''Cased_Letter'', ''Other''} = {}
   \<and> ucd_generate_command directory
        = ''ucd-generate general-category '' @ directory @ '' --exclude='' @ EXCLUDE
   \<and> distinct (split_on CHR '','' EXCLUDE)
   \<and> set (split_on CHR '','' EXCLUDE)
        = {''Letter'', ''Mark'', ''Number'', ''Punctuation'', ''Symbol'',
           ''Separator'', ''Cased_Letter'', ''Other''}"
proof (intro conjI)
  show d: "distinct CATEGORIES" by (simp add: CATEGORIES_def)
  have "length CATEGORIES = 30" by (simp add: CATEGORIES_def)
  with d show "card (set CATEGORIES) = 30" by (simp add: distinct_card)
  show "set CATEGORIES \<inter> {''Letter'', ''Mark'', ''Number'', ''Punctuation'', ''Symbol'',
                           ''Separator'', ''Cased_Letter'', ''Other''} = {}"
    by (simp add: CATEGORIES_def)
  show "ucd_generate_command directory
        = ''ucd-generate general-category '' @ directory @ '' --exclude='' @ EXCLUDE"
    by (simp add: ucd_generate_command_def)
  have s: "split_on CHR '','' EXCLUDE
        = [''Separator'', ''Symbol'', ''Cased_Letter'', ''Letter'', ''Mark'', ''Number'',
           ''Other'', ''Punctuation'']"
    by (simp add: EXCLUDE_def split_on_Cons)
  show "distinct (split_on CHR '','' EXCLUDE)" unfolding s by simp
  show "set (split_on CHR '','' EXCLUDE)
        = {''Letter'', ''Mark'', ''Number'', ''Punctuation'', ''Symbol'',
           ''Separator'', ''Cased_Letter'', ''Other''}"
    unfolding s by auto
qed

text \<open>
  Claim C8. The positional arguments are \<open>tl argv\<close>. When their number is not one, \<open>main\<close>
  prints the usage line (one line: it holds no line feed), exits with status 1, and does nothing
  else: the tree is untouched and no external call is made. When it is one, \<open>main\<close> prints
  nothing, does not exit with a status, and its first external call is the download of the
  version \<open>argv[1]\<close>.
\<close>

theorem main_checks_arity:
  "(length (tl argv) \<noteq> 1 \<longrightarrow>
      main e argv w = (Exit 1, w\<lparr>stdout := stdout w @ [USAGE]\<rparr>)
      \<and> tree_of (snd (main e argv w)) = tree_of w
      \<and> calls (snd (main e argv w)) = calls w)
   \<and> (length (tl argv) = 1 \<longrightarrow>
      (\<forall>n. fst (main e argv w) \<noteq> Exit n)
      \<and> stdout (snd (main e argv w)) = stdout w
      \<and> take (Suc (length (calls w))) (calls (snd (main e argv w)))
            = calls w @ [Fetch (argv ! 1) (mkdtemp e)])
   \<and> LF \<notin> set USAGE"
proof (intro conjI impI)
  assume "length (tl argv) \<noteq> 1"
  then have l: "length argv \<noteq> 2" by (cases argv) auto
  then show "main e argv w = (Exit 1, w\<lparr>stdout := stdout w @ [USAGE]\<rparr>)"
    by (simp add: main_def)
  then show "tree_of (snd (main e argv w)) = tree_of w" by simp
  from l show "calls (snd (main e argv w)) = calls w" by (simp add: main_def)
next
  assume "length (tl argv) = 1"
  then have l: "length argv = 2" by (cases argv) auto
  then show "\<forall>n. fst (main e argv w) \<noteq> Exit n"
    by (simp add: main_def Let_def split: option.splits sum.splits prod.splits)
  from l show "stdout (snd (main e argv w)) = stdout w"
    by (simp add: main_def Let_def split: option.splits sum.splits prod.splits)
  from l show "take (Suc (length (calls w))) (calls (snd (main e argv w)))
            = calls w @ [Fetch (argv ! 1) (mkdtemp e)]"
    by (simp add: main_def Let_def split: option.splits sum.splits prod.splits)
next
  show "LF \<notin> set USAGE" by (simp add: USAGE_def LF_def)
qed

theorem main_checks_arity_witness:
  "length (tl [''generate_tables.py'']) \<noteq> 1
   \<and> main env0 [''generate_tables.py''] world0 = (Exit 1, world0\<lparr>stdout := [USAGE]\<rparr>)
   \<and> length (tl [''generate_tables.py'', ''15.0.0'']) = 1
   \<and> calls (snd (main env0 [''generate_tables.py'', ''15.0.0''] world0))
        = [Fetch ''15.0.0'' ''/tmp/tmpq3x1'']"
  using main_checks_arity [of "[''generate_tables.py'']" env0 world0]
        main_checks_arity [of "[''generate_tables.py'', ''15.0.0'']" env0 world0]
  by (simp add: env0_def world0_def main_def)



text \<open>
  Claim C10. When \<open>transform_code\<close> succeeds, its output is the lines joined by single line
  feeds: as many lines as the input has, none of them holding a carriage return or a line
  feed, so the output has no carriage return at all and one line feed fewer than lines (none
  after the last line). A line of the input that contains neither the by-name declaration
  text nor a category name is in the output as it was.
\<close>

theorem transform_joins_with_line_feeds:
  "transform_code_order cats code = Inr out \<Longrightarrow>
   \<exists>lines'. out = join_bytes [LF] lines'
     \<and> length lines' = length (splitlines code)
     \<and> (\<forall>l\<in>set lines'. CR \<notin> set l \<and> LF \<notin> set l)
     \<and> CR \<notin> set out
     \<and> length (filter (\<lambda>c. c = LF) out) = length lines' - 1
     \<and> (\<forall>k<length lines'.
           \<not> is_in BY_NAME_PAIRS (splitlines code ! k)
           \<and> (\<forall>c\<in>set cats. \<not> is_in c (splitlines code ! k))
           \<longrightarrow> lines' ! k = splitlines code ! k)"
proof -
  assume "transform_code_order cats code = Inr out"
  then obtain L' where t: "transform_lines cats (scanned_lines code) = Inr L'"
    and o: "out = join_bytes [LF] L'" by (rule transform_code_order_lines)
  from t have len: "length L' = length (splitlines code)" by (rule transformed_lines_length)
  have bf: "\<forall>l\<in>set L'. CR \<notin> set l \<and> LF \<notin> set l"
    using transformed_lines_break_free[OF t] by blast
  have "set out \<subseteq> set [LF] \<union> \<Union> (set ` set L')" unfolding o by (rule set_join_bytes)
  with bf have cr: "CR \<notin> set out" by (auto simp: CR_def LF_def)
  from bf have "\<forall>l\<in>set L'. LF \<notin> set l" by blast
  then have cnt: "length (filter (\<lambda>c. c = LF) out) = length L' - 1"
    unfolding o by (rule count_join_bytes)
  have fr: "L' ! k = splitlines code ! k"
    if k: "k < length L'" and a: "\<not> is_in BY_NAME_PAIRS (splitlines code ! k)"
      and c: "\<forall>c\<in>set cats. \<not> is_in c (splitlines code ! k)" for k
  proof -
    from k len have kl: "k < length (splitlines code)" by simp
    have "replace_bytes BY_NAME_PAIRS BY_NAME_TABLES (splitlines code ! k) = splitlines code ! k"
      using a by (intro replace_bytes_absent) (simp_all add: BY_NAME_PAIRS_def)
    with kl have e: "scanned_lines code ! k = splitlines code ! k" by (simp add: scanned_lines_nth)
    from kl have ks: "k < length (scanned_lines code)" by (simp add: scanned_lines_map)
    from c e have "\<forall>c\<in>set cats. \<not> is_in c (scanned_lines code ! k)" by simp
    with t ks have "L' ! k = scanned_lines code ! k" by (rule transform_lines_frame)
    with e show ?thesis by simp
  qed
  from o len bf cr cnt fr show ?thesis by blast
qed

theorem transform_joins_with_line_feeds_witness:
  "transform_code_order CATEGORIES sample_source = Inr sample_result
   \<and> CR \<in> set sample_source \<and> CR \<notin> set sample_result
   \<and> (\<exists>lines'. sample_result = join_bytes [LF] lines'
         \<and> length lines' = length (splitlines sample_source))"
proof -
  have "CR \<in> set sample_source" by (simp add: sample_source_def)
  with transform_joins_with_line_feeds [OF sample_eval] sample_eval show ?thesis by blast
qed

text \<open>
  Claim C3. When \<open>transform_code\<close> succeeds, the output has as many lines as the input, and
  line \<open>k\<close> of the output is line \<open>k\<close> of the input with some bytes deleted: the bytes that
  stay are in the order they had. No line and no entry changes its position.
\<close>

theorem transform_keeps_positions:
  "transform_code_order cats code = Inr out \<Longrightarrow>
   \<exists>lines'. out = join_bytes [LF] lines'
     \<and> (\<forall>l\<in>set lines'. LF \<notin> set l)
     \<and> length lines' = length (splitlines code)
     \<and> (\<forall>k<length lines'. subseq (lines' ! k) (splitlines code ! k))"
proof -
  assume "transform_code_order cats code = Inr out"
  then obtain L' where t: "transform_lines cats (scanned_lines code) = Inr L'"
    and o: "out = join_bytes [LF] L'" by (rule transform_code_order_lines)
  from t have len: "length L' = length (splitlines code)" by (rule transformed_lines_length)
  have bf: "\<forall>l\<in>set L'. LF \<notin> set l"
    using transformed_lines_break_free[OF t] by blast
  have "\<forall>k<length L'. subseq (L' ! k) (splitlines code ! k)"
    using transformed_lines_subseq[OF t] len by simp
  with o len bf show ?thesis by blast
qed

theorem transform_keeps_positions_witness:
  "transform_code_order CATEGORIES sample_source = Inr sample_result
   \<and> (\<exists>lines'. sample_result = join_bytes [LF] lines'
         \<and> length lines' = 36
         \<and> subseq (lines' ! 3) (sample_lines ! 3))"
proof -
  have l: "length sample_lines = 36" by (simp add: sample_lines_def)
  from transform_keeps_positions [OF sample_eval] obtain lines'
    where a: "sample_result = join_bytes [LF] lines'"
      and b: "length lines' = length (splitlines sample_source)"
      and c: "\<forall>k<length lines'. subseq (lines' ! k) (splitlines sample_source ! k)"
    by blast
  from b l have d: "length lines' = 36" by (simp add: sample_source_lines)
  with c have "subseq (lines' ! 3) (sample_lines ! 3)" by (simp add: sample_source_lines)
  with a d sample_eval show ?thesis by blast
qed

end
